theory Spec2Isabelle
  imports Main "HOL-Library.Word" "HOL-Library.Monad_Syntax"
begin

unbundle bit_operations_syntax

section \<open>Go integers, slices and run-time panics\<close>

text \<open>
  The ring buffer of \<^verbatim>\<open>ringbuffer.go\<close> is embedded with explicit state passing.
  Go's \<^verbatim>\<open>int\<close> is taken to be the 64-bit two's complement integer of the common
  platforms: a value is a HOL \<open>int\<close>, and every addition and subtraction of the source
  is wrapped into the range \<open>[-2^63, 2^63)\<close>, as the machine does.  A run-time panic
  (slice bounds out of range, index out of range, integer divide by zero, a negative
  length given to \<^verbatim>\<open>make\<close>) is the result \<open>None\<close>; Go's error values are the
  datatype \<open>error\<close>.  A slice is the list of its elements; its capacity is taken equal to
  its length, which is what \<^verbatim>\<open>make([]byte, n)\<close> gives.  Allocation is assumed to
  succeed, and the mutex is not modelled: every operation runs alone under the lock.
\<close>

type_synonym byte = "8 word"

definition max_int :: int where
  "max_int = 9223372036854775807"

definition min_int :: int where
  "min_int = - 9223372036854775808"

definition wrap :: "int \<Rightarrow> int" where
  "wrap x = (x + 9223372036854775808) mod 18446744073709551616 - 9223372036854775808"

definition iadd :: "int \<Rightarrow> int \<Rightarrow> int" where
  "iadd a b = wrap (a + b)"

definition isub :: "int \<Rightarrow> int \<Rightarrow> int" where
  "isub a b = wrap (a - b)"

text \<open>Go's \<^verbatim>\<open>a % b\<close>: the remainder of the division truncated towards zero; it
  panics when \<open>b\<close> is zero.\<close>

definition go_rem :: "int \<Rightarrow> int \<Rightarrow> int option" where
  "go_rem a b = (if b = 0 then None else Some (sgn a * (\<bar>a\<bar> mod \<bar>b\<bar>)))"

definition len :: "'a list \<Rightarrow> int" where
  "len s = int (length s)"

text \<open>\<^verbatim>\<open>make([]byte, n)\<close>\<close>

definition make_bytes :: "int \<Rightarrow> byte list option" where
  "make_bytes n = (if 0 \<le> n then Some (replicate (nat n) 0) else None)"

text \<open>\<^verbatim>\<open>s[i]\<close> and \<^verbatim>\<open>s[lo:hi]\<close>, with their bounds checks.\<close>

definition index :: "'a list \<Rightarrow> int \<Rightarrow> 'a option" where
  "index s i = (if 0 \<le> i \<and> i < len s then Some (s ! nat i) else None)"

definition slice :: "'a list \<Rightarrow> int \<Rightarrow> int \<Rightarrow> 'a list option" where
  "slice s lo hi =
     (if 0 \<le> lo \<and> lo \<le> hi \<and> hi \<le> len s
      then Some (take (nat (hi - lo)) (drop (nat lo) s)) else None)"

text \<open>\<^verbatim>\<open>copy(dst, src)\<close> overwrites the first \<open>min (len dst) (len src)\<close> elements
  of \<open>dst\<close>; \<open>copy_at dst lo hi src\<close> is \<^verbatim>\<open>copy(dst[lo:hi], src)\<close> seen from the
  array \<open>dst\<close> that the slice shares.\<close>

definition copy :: "'a list \<Rightarrow> 'a list \<Rightarrow> 'a list" where
  "copy dst src = take (length dst) src @ drop (length src) dst"

definition copy_at :: "'a list \<Rightarrow> int \<Rightarrow> int \<Rightarrow> 'a list \<Rightarrow> 'a list option" where
  "copy_at dst lo hi src =
     (case slice dst lo hi of
        None \<Rightarrow> None
      | Some d \<Rightarrow> Some (take (nat lo) dst @ copy d src @ drop (nat hi) dst))"

section \<open>The ring buffer\<close>

datatype error = BufferOverflow | EOF

record RingBuffer =
  buf :: "byte list"
  growSize :: int
  readPos :: int
  written :: int

text \<open>The zero value \<^verbatim>\<open>&RingBuffer{}\<close>: a nil slice and zero fields.\<close>

definition zero_RingBuffer :: RingBuffer where
  "zero_RingBuffer = \<lparr>buf = [], growSize = 0, readPos = 0, written = 0\<rparr>"

definition normalize_growSize :: "int \<Rightarrow> int" where
  "normalize_growSize n =
     (if n \<le> 15 then 16
      else if n > 1048576 then 1048576
      else
        (let g = isub n 1;
             g = g OR drop_bit 1 g;
             g = g OR drop_bit 2 g;
             g = g OR drop_bit 4 g;
             g = g OR drop_bit 8 g;
             g = g OR drop_bit 16 g
         in iadd g 1))"

definition Initialize :: "RingBuffer \<Rightarrow> int \<Rightarrow> RingBuffer option" where
  "Initialize r n =
     (let g = normalize_growSize n in
      do {
        b \<leftarrow> make_bytes g;
        Some (r\<lparr>buf := b, growSize := g\<rparr>)
      })"

definition New :: "int \<Rightarrow> RingBuffer option" where
  "New n = Initialize zero_RingBuffer n"

definition readInfo :: "RingBuffer \<Rightarrow> int \<times> int \<times> int" where
  "readInfo r =
     (if readPos r \<le> isub (len (buf r)) (written r)
      then (readPos r, written r, 0)
      else (readPos r,
            isub (len (buf r)) (readPos r),
            isub (written r) (isub (len (buf r)) (readPos r))))"

definition writeInfo :: "RingBuffer \<Rightarrow> int \<times> int \<times> int" where
  "writeInfo r =
     (if written r = len (buf r) then (0, 0, 0)
      else if readPos r < isub (len (buf r)) (written r) then
        (let end' = iadd (readPos r) (written r) in
         (end', isub (len (buf r)) end', if readPos r > 0 then readPos r else 0))
      else
        (isub (readPos r) (isub (len (buf r)) (written r)),
         isub (len (buf r)) (written r),
         0))"

definition growBuffer :: "RingBuffer \<Rightarrow> int \<Rightarrow> RingBuffer option" where
  "growBuffer r newSize =
     (if newSize > len (buf r) then
        do {
          newBuf \<leftarrow> make_bytes newSize;
          newBuf \<leftarrow>
            (if iadd (readPos r) (written r) \<le> len (buf r) then
               do {
                 s \<leftarrow> slice (buf r) (readPos r) (iadd (readPos r) (written r));
                 Some (copy newBuf s)
               }
             else
               (let temp = isub (len (buf r)) (readPos r) in
                do {
                  s1 \<leftarrow> slice (buf r) (readPos r) (len (buf r));
                  s2 \<leftarrow> slice (buf r) 0 (isub (written r) temp);
                  copy_at (copy newBuf s1) temp (len newBuf) s2
                }));
          Some (r\<lparr>buf := newBuf, readPos := 0\<rparr>)
        }
      else Some r)"

definition ensureCapacity :: "RingBuffer \<Rightarrow> int \<Rightarrow> (RingBuffer \<times> error option) option" where
  "ensureCapacity r n =
     (if n > isub (len (buf r)) (written r) then
        (let required = iadd (written r) n in
         if required < n then Some (r, Some BufferOverflow)
         else
           do {
             rem \<leftarrow> go_rem required (growSize r);
             r' \<leftarrow> growBuffer r (iadd required (isub (growSize r) rem));
             Some (r', None)
           })
      else Some (r, None))"

definition advanceReadPos :: "RingBuffer \<Rightarrow> int \<Rightarrow> RingBuffer" where
  "advanceReadPos r n =
     (let r1 = (if readPos r < isub (len (buf r)) n
                then r\<lparr>readPos := iadd (readPos r) n\<rparr>
                else r\<lparr>readPos := isub (readPos r) (isub (len (buf r)) n)\<rparr>)
      in r1\<lparr>written := isub (written r1) n\<rparr>)"

definition advanceWritePos :: "RingBuffer \<Rightarrow> int \<Rightarrow> RingBuffer" where
  "advanceWritePos r n = r\<lparr>written := iadd (written r) n\<rparr>"

text \<open>\<open>peek r p\<close> returns the caller's slice as the copies leave it, the count and the
  error.  It assigns no field of the buffer.\<close>

definition peek :: "RingBuffer \<Rightarrow> byte list \<Rightarrow> (byte list \<times> int \<times> error option) option" where
  "peek r p =
     (let n = len p in
      if n = 0 then Some (p, 0, None)
      else
        (case readInfo r of (ofs1, len1, len2) \<Rightarrow>
           if len1 = 0 \<and> len2 = 0 then Some (p, 0, Some EOF)
           else if n \<le> len1 then
             do {
               s \<leftarrow> slice (buf r) ofs1 (iadd ofs1 n);
               Some (copy p s, n, None)
             }
           else
             (let n = (if n > iadd len1 len2 then iadd len1 len2 else n) in
              do {
                s1 \<leftarrow> slice (buf r) ofs1 (len (buf r));
                s2 \<leftarrow> slice (buf r) 0 len2;
                p' \<leftarrow> copy_at (copy p s1) len1 (len p) s2;
                Some (p', n, None)
              })))"

definition Peek :: "RingBuffer \<Rightarrow> byte list \<Rightarrow> (RingBuffer \<times> byte list \<times> int \<times> error option) option" where
  "Peek r p = do { (p', n, err) \<leftarrow> peek r p; Some (r, p', n, err) }"

definition Read :: "RingBuffer \<Rightarrow> byte list \<Rightarrow> (RingBuffer \<times> byte list \<times> int \<times> error option) option" where
  "Read r p =
     do {
       (p', n, err) \<leftarrow> peek r p;
       (if err = None then Some (advanceReadPos r n, p', n, err)
        else Some (r, p', n, err))
     }"

definition Write :: "RingBuffer \<Rightarrow> byte list \<Rightarrow> (RingBuffer \<times> int \<times> error option) option" where
  "Write r p =
     (let n = len p in
      if n = 0 then Some (r, 0, None)
      else
        do {
          (r, err) \<leftarrow> ensureCapacity r n;
          (if err \<noteq> None then Some (r, 0, err)
           else
             (case writeInfo r of (ofs1, len1, len2) \<Rightarrow>
                do {
                  b \<leftarrow>
                    (if n \<le> len1 then copy_at (buf r) ofs1 (iadd ofs1 n) p
                     else
                       do {
                         p1 \<leftarrow> slice p 0 len1;
                         b1 \<leftarrow> copy_at (buf r) ofs1 (len (buf r)) p1;
                         p2 \<leftarrow> slice p len1 (len p);
                         copy_at b1 0 len2 p2
                       });
                  Some (advanceWritePos (r\<lparr>buf := b\<rparr>) n, n, None)
                }))
        })"

definition Len :: "RingBuffer \<Rightarrow> RingBuffer \<times> int" where
  "Len r = (r, written r)"

subsection \<open>Scan and the searches\<close>

text \<open>The callback of \<^verbatim>\<open>Scan\<close> is a closure over variables of its caller; here it
  takes and returns their values \<open>'s\<close>.  The loop index cannot overflow: it is below a
  length.\<close>

function scan_loop1 ::
  "(byte \<Rightarrow> int \<Rightarrow> 's \<Rightarrow> (bool \<times> 's) option) \<Rightarrow> byte list \<Rightarrow> int \<Rightarrow> int \<Rightarrow> int \<Rightarrow> 's
     \<Rightarrow> (bool \<times> 's) option" where
  "scan_loop1 fn b ofs1 len1 idx s =
     (if idx < len1 then
        do {
          e \<leftarrow> index b (iadd ofs1 idx);
          (stop, s') \<leftarrow> fn e idx s;
          (if stop then Some (True, s') else scan_loop1 fn b ofs1 len1 (idx + 1) s')
        }
      else Some (False, s))"
  by pat_completeness auto
termination
  by (relation "measure (\<lambda>(fn, b, ofs1, len1, idx, s). nat (len1 - idx))") auto

function scan_loop2 ::
  "(byte \<Rightarrow> int \<Rightarrow> 's \<Rightarrow> (bool \<times> 's) option) \<Rightarrow> byte list \<Rightarrow> int \<Rightarrow> int \<Rightarrow> int \<Rightarrow> 's
     \<Rightarrow> (bool \<times> 's) option" where
  "scan_loop2 fn b len1 len2 idx s =
     (if idx < len2 then
        do {
          e \<leftarrow> index b idx;
          (stop, s') \<leftarrow> fn e (iadd len1 idx) s;
          (if stop then Some (True, s') else scan_loop2 fn b len1 len2 (idx + 1) s')
        }
      else Some (False, s))"
  by pat_completeness auto
termination
  by (relation "measure (\<lambda>(fn, b, len1, len2, idx, s). nat (len2 - idx))") auto

definition Scan ::
  "RingBuffer \<Rightarrow> (byte \<Rightarrow> int \<Rightarrow> 's \<Rightarrow> (bool \<times> 's) option) \<Rightarrow> 's \<Rightarrow> (RingBuffer \<times> 's) option" where
  "Scan r fn s =
     (case readInfo r of (ofs1, len1, len2) \<Rightarrow>
        do {
          (stop, s1) \<leftarrow> scan_loop1 fn (buf r) ofs1 len1 0 s;
          (if stop then Some (r, s1)
           else
             do {
               (stop, s2) \<leftarrow> scan_loop2 fn (buf r) len1 len2 0 s1;
               Some (r, s2)
             })
        })"

text \<open>The closure of \<^verbatim>\<open>Find\<close> over \<open>foundIdx\<close>.\<close>

definition Find_fn :: "byte \<Rightarrow> byte \<Rightarrow> int \<Rightarrow> int \<Rightarrow> (bool \<times> int) option" where
  "Find_fn b elem idx foundIdx = (if elem = b then Some (True, idx) else Some (False, foundIdx))"

definition Find :: "RingBuffer \<Rightarrow> byte \<Rightarrow> (RingBuffer \<times> int) option" where
  "Find r b = Scan r (Find_fn b) (- 1)"

text \<open>The closure of \<^verbatim>\<open>FindBytes\<close> over \<open>(foundIdx, currentOfs, potentialStartIdx)\<close>.\<close>

definition FindBytes_fn ::
  "byte list \<Rightarrow> byte \<Rightarrow> int \<Rightarrow> int \<times> int \<times> int \<Rightarrow> (bool \<times> int \<times> int \<times> int) option" where
  "FindBytes_fn b elem idx st =
     (case st of (foundIdx, currentOfs, potentialStartIdx) \<Rightarrow>
        do {
          c \<leftarrow> index b currentOfs;
          (if elem = c then
             (let potentialStartIdx = (if currentOfs = 0 then idx else potentialStartIdx);
                  currentOfs = iadd currentOfs 1
              in if currentOfs = len b
                 then Some (True, potentialStartIdx, currentOfs, potentialStartIdx)
                 else Some (False, foundIdx, currentOfs, potentialStartIdx))
           else Some (False, foundIdx, 0, potentialStartIdx))
        })"

definition FindBytes :: "RingBuffer \<Rightarrow> byte list \<Rightarrow> (RingBuffer \<times> int) option" where
  "FindBytes r b =
     (if len b = 0 then Some (r, - 1)
      else
        do {
          (r', st) \<leftarrow> Scan r (FindBytes_fn b) (- 1, 0, - 1);
          Some (r', fst st)
        })"

section \<open>The data model of the specification\<close>

text \<open>The two bounds of the data model, and the well-formedness of a buffer that
  \<^verbatim>\<open>New\<close> has built: the length of the backing array is a Go \<^verbatim>\<open>int\<close>, and the
  growth quantum is in the range that \<^verbatim>\<open>Initialize\<close> clamps it to.\<close>

definition bounds :: "RingBuffer \<Rightarrow> bool" where
  "bounds r =
     (0 \<le> written r \<and> written r \<le> len (buf r) \<and> 0 \<le> readPos r \<and> readPos r < len (buf r))"

definition rb_inv :: "RingBuffer \<Rightarrow> bool" where
  "rb_inv r =
     (bounds r \<and> len (buf r) \<le> max_int \<and> 16 \<le> growSize r \<and> growSize r \<le> 1048576)"

text \<open>The unread region: the circular span of \<open>w\<close> elements of the array \<open>b\<close> that starts at
  index \<open>rp\<close>; logical index \<open>i\<close> is the physical index \<open>(rp + i) mod length b\<close>.\<close>

definition ring :: "'a list \<Rightarrow> nat \<Rightarrow> nat \<Rightarrow> 'a list" where
  "ring b rp w = map (\<lambda>i. b ! ((rp + i) mod length b)) [0..<w]"

definition contents :: "RingBuffer \<Rightarrow> byte list" where
  "contents r = ring (buf r) (nat (readPos r)) (nat (written r))"

text \<open>Rounding \<open>x\<close> up to a multiple of \<open>q\<close>, in the sense in which the specification
  rounds a size up: a multiple is left as it is.\<close>

definition round_up_multiple :: "int \<Rightarrow> int \<Rightarrow> int" where
  "round_up_multiple x q = ((x + q - 1) div q) * q"

text \<open>The single-pass streaming match of the specification, on the unread bytes in logical
  order: a candidate start and a match offset are maintained; a byte equal to the target
  byte at the offset advances the offset, the start being recorded when the offset was
  zero, and the match is complete when the offset reaches the length of the target; any
  other byte resets the offset to zero, and the scan goes on with the next byte.\<close>

fun stream_match_from :: "byte list \<Rightarrow> byte list \<Rightarrow> int \<Rightarrow> int \<Rightarrow> nat \<Rightarrow> int" where
  "stream_match_from target [] idx start ofs = - 1"
| "stream_match_from target (c # cs) idx start ofs =
     (if c = target ! ofs then
        (let start' = (if ofs = 0 then idx else start) in
         if Suc ofs = length target then start'
         else stream_match_from target cs (idx + 1) start' (Suc ofs))
      else stream_match_from target cs (idx + 1) start 0)"

definition stream_match :: "byte list \<Rightarrow> byte list \<Rightarrow> int" where
  "stream_match target cs = (if target = [] then - 1 else stream_match_from target cs 0 (- 1) 0)"

text \<open>A visitor applied to a list of bytes in order, the first at logical index \<open>i\<close>, until
  it asks to stop: what \<^verbatim>\<open>Scan\<close> is shown to do on the unread bytes.\<close>

fun visit ::
  "(byte \<Rightarrow> int \<Rightarrow> 's \<Rightarrow> (bool \<times> 's) option) \<Rightarrow> byte list \<Rightarrow> int \<Rightarrow> 's \<Rightarrow> (bool \<times> 's) option" where
  "visit fn [] i s = Some (False, s)"
| "visit fn (c # cs) i s =
     (case fn c i s of
        None \<Rightarrow> None
      | Some (stop, s') \<Rightarrow> if stop then Some (True, s') else visit fn cs (i + 1) s')"

text \<open>A sequence of \<^verbatim>\<open>Write\<close> calls that all return a nil error, and a sequence of
  \<^verbatim>\<open>Read\<close> calls into fresh destinations of the given sizes, with the bytes the calls
  returned, in order.\<close>

fun writes :: "RingBuffer \<Rightarrow> byte list list \<Rightarrow> RingBuffer option" where
  "writes r [] = Some r"
| "writes r (p # ps) =
     (case Write r p of
        Some (r', n, None) \<Rightarrow> writes r' ps
      | _ \<Rightarrow> None)"

fun reads :: "RingBuffer \<Rightarrow> nat list \<Rightarrow> (RingBuffer \<times> byte list) option" where
  "reads r [] = Some (r, [])"
| "reads r (k # ks) =
     (case Read r (replicate k 0) of
        None \<Rightarrow> None
      | Some (r', p', n, err) \<Rightarrow>
          (case reads r' ks of
             None \<Rightarrow> None
           | Some (r'', bs) \<Rightarrow> Some (r'', take (nat n) p' @ bs)))"

subsection \<open>Example states\<close>

definition empty16 :: RingBuffer where
  "empty16 = \<lparr>buf = replicate 16 0, growSize = 16, readPos = 0, written = 0\<rparr>"

text \<open>A state whose unread region wraps: it starts at index 10 and ends at index 5.\<close>

definition wrapped16 :: RingBuffer where
  "wrapped16 = \<lparr>buf = [25, 26, 27, 28, 29, 30, 7, 8, 9, 10, 11, 12, 21, 22, 23, 24],
     growSize = 16, readPos = 10, written = 12\<rparr>"

section \<open>Arithmetic and slices\<close>

declare scan_loop1.simps [simp del] scan_loop2.simps [simp del]

lemma wrap_id: "- 9223372036854775808 \<le> x \<Longrightarrow> x \<le> 9223372036854775807 \<Longrightarrow> wrap x = x"
  by (simp add: wrap_def)

lemma length_ring [simp]: "length (ring b rp w) = w"
  by (simp add: ring_def)

lemma nth_ring: "i < w \<Longrightarrow> ring b rp w ! i = b ! ((rp + i) mod length b)"
  by (simp add: ring_def)

lemma ring_nowrap: "rp + w \<le> length b \<Longrightarrow> ring b rp w = take w (drop rp b)"
  by (rule nth_equalityI) (auto simp: nth_ring)

lemma mod_once: "length b \<le> k \<Longrightarrow> k < 2 * length b \<Longrightarrow> k mod length b = k - length b"
  by (simp add: le_mod_geq)

lemma ring_wrap:
  assumes "rp < length b" "w \<le> length b" "length b < rp + w"
  shows "ring b rp w = drop rp b @ take (rp + w - length b) b"
proof (rule nth_equalityI)
  show "length (ring b rp w) = length (drop rp b @ take (rp + w - length b) b)"
    using assms by auto
next
  fix i assume "i < length (ring b rp w)"
  then have i: "i < w" by simp
  show "ring b rp w ! i = (drop rp b @ take (rp + w - length b) b) ! i"
  proof (cases "rp + i < length b")
    case True
    then have "i < length b - rp" by arith
    then show ?thesis using i True by (simp add: nth_ring nth_append)
  next
    case False
    have m: "(rp + i) mod length b = rp + i - length b"
      using assms i False by (intro mod_once) auto
    have a: "\<not> i < length b - rp" using False by arith
    have b: "i - (length b - rp) = rp + i - length b" using False assms by arith
    have c: "rp + i - length b < rp + w - length b" using False assms i by arith
    show ?thesis using i a b c m by (simp add: nth_ring nth_append)
  qed
qed

lemma length_copy [simp]: "length (copy dst src) = length dst"
  by (simp add: copy_def)

lemma take_copy: "length src \<le> length dst \<Longrightarrow> take (length src) (copy dst src) = src"
  by (simp add: copy_def)


lemma take_copy_le: "k \<le> length src \<Longrightarrow> k \<le> length dst \<Longrightarrow> take k (copy dst src) = take k src"
  by (simp add: copy_def)

lemma rb_invD:
  assumes "rb_inv r"
  obtains C rp w where "buf r \<noteq> []" "length (buf r) = C" "readPos r = int rp" "written r = int w"
    "rp < C" "w \<le> C" "int C \<le> 9223372036854775807" "16 \<le> growSize r" "growSize r \<le> 1048576"
proof -
  from assms have a: "0 \<le> written r" "written r \<le> int (length (buf r))" "0 \<le> readPos r"
    "readPos r < int (length (buf r))" "int (length (buf r)) \<le> 9223372036854775807"
    "16 \<le> growSize r" "growSize r \<le> 1048576"
    by (simp_all add: rb_inv_def bounds_def len_def max_int_def)
  show thesis
    by (rule that [of "length (buf r)" "nat (readPos r)" "nat (written r)"]) (use a in auto)
qed

section \<open>Construction\<close>

lemma smear_step:
  fixes a :: int
  assumes hi: "\<forall>j\<ge>k. \<not> bit a j" and lo: "\<forall>j. k - d \<le> j \<and> j < k \<longrightarrow> bit a j" and s: "s \<le> d"
  shows "\<forall>j\<ge>k. \<not> bit (a OR drop_bit s a) j"
    and "\<forall>j. k - (d + s) \<le> j \<and> j < k \<longrightarrow> bit (a OR drop_bit s a) j"
proof -
  show "\<forall>j\<ge>k. \<not> bit (a OR drop_bit s a) j"
    using hi by (simp add: bit_or_iff bit_drop_bit_eq)
  show "\<forall>j. k - (d + s) \<le> j \<and> j < k \<longrightarrow> bit (a OR drop_bit s a) j"
  proof (intro allI impI)
    fix j assume j: "k - (d + s) \<le> j \<and> j < k"
    show "bit (a OR drop_bit s a) j"
    proof (cases "k - d \<le> j")
      case True
      then show ?thesis using lo j by (simp add: bit_or_iff)
    next
      case False
      then have "k - d \<le> s + j \<and> s + j < k" using j s by arith
      then have "bit a (s + j)" using lo by blast
      then show ?thesis by (simp add: bit_or_iff bit_drop_bit_eq)
    qed
  qed
qed

lemma smear_mask:
  fixes x :: int
  assumes x: "2 ^ (k - 1) \<le> x" "x < 2 ^ k" and k: "0 < k" "k \<le> 32"
  shows "(let g = x; g = g OR drop_bit 1 g; g = g OR drop_bit 2 g; g = g OR drop_bit 4 g;
              g = g OR drop_bit 8 g; g = g OR drop_bit 16 g in g) = 2 ^ k - 1"
proof -
  have hi0: "\<forall>j\<ge>k. \<not> bit x j"
  proof (intro allI impI)
    fix j assume "k \<le> j"
    then have "(2::int) ^ k \<le> 2 ^ j" by simp
    with x(2) have "x < 2 ^ j" by (rule less_le_trans)
    moreover have "0 \<le> x" using x(1) by (rule order_trans [rotated]) simp
    ultimately have "x div 2 ^ j = 0" by simp
    then show "\<not> bit x j" by (simp add: bit_iff_odd)
  qed
  define a :: int where "a = 2 ^ (k - 1)"
  have "(2::int) ^ k = 2 * 2 ^ (k - 1)" using k by (cases k) simp_all
  with x have a: "0 < a" "a \<le> x" "x < 2 * a" by (simp_all add: a_def)
  then have "(x - a) div a = 0" by (intro div_pos_pos_trivial) auto
  moreover have "x div a = (x - a) div a + 1"
    using a(1) div_add_self2 [of a "x - a"] by simp
  ultimately have "x div a = 1" by simp
  then have top: "bit x (k - 1)" by (simp add: bit_iff_odd a_def)
  have lo0: "\<forall>j. k - 1 \<le> j \<and> j < k \<longrightarrow> bit x j"
  proof (intro allI impI)
    fix j assume "k - 1 \<le> j \<and> j < k"
    then have "j = k - 1" by arith
    then show "bit x j" using top by simp
  qed
  define y1 where "y1 = x OR drop_bit 1 x"
  define y2 where "y2 = y1 OR drop_bit 2 y1"
  define y3 where "y3 = y2 OR drop_bit 4 y2"
  define y4 where "y4 = y3 OR drop_bit 8 y3"
  define y5 where "y5 = y4 OR drop_bit 16 y4"
  have s1: "\<forall>j\<ge>k. \<not> bit y1 j" "\<forall>j. k - (1 + 1) \<le> j \<and> j < k \<longrightarrow> bit y1 j"
    unfolding y1_def by (rule smear_step [OF hi0 lo0], simp)+
  have s2: "\<forall>j\<ge>k. \<not> bit y2 j" "\<forall>j. k - (1 + 1 + 2) \<le> j \<and> j < k \<longrightarrow> bit y2 j"
    unfolding y2_def by (rule smear_step [OF s1], simp)+
  have s3: "\<forall>j\<ge>k. \<not> bit y3 j" "\<forall>j. k - (1 + 1 + 2 + 4) \<le> j \<and> j < k \<longrightarrow> bit y3 j"
    unfolding y3_def by (rule smear_step [OF s2], simp)+
  have s4: "\<forall>j\<ge>k. \<not> bit y4 j" "\<forall>j. k - (1 + 1 + 2 + 4 + 8) \<le> j \<and> j < k \<longrightarrow> bit y4 j"
    unfolding y4_def by (rule smear_step [OF s3], simp)+
  have s5: "\<forall>j\<ge>k. \<not> bit y5 j" "\<forall>j. k - (1 + 1 + 2 + 4 + 8 + 16) \<le> j \<and> j < k \<longrightarrow> bit y5 j"
    unfolding y5_def by (rule smear_step [OF s4], simp)+
  have "bit y5 j \<longleftrightarrow> j < k" for j
  proof (cases "j < k")
    case True
    then have "k - 32 \<le> j" using k by arith
    then show ?thesis using s5(2) True by simp
  next
    case False
    then show ?thesis using s5(1) by simp
  qed
  then have "y5 = mask k"
    by (simp add: bit_eq_iff bit_mask_iff)
  then show ?thesis
    by (simp add: Let_def y5_def y4_def y3_def y2_def y1_def mask_eq_exp_minus_1)
qed


lemma normalize_growSize_pow2:
  assumes n: "15 < n" "n \<le> 1048576"
  shows "\<exists>k. normalize_growSize n = 2 ^ k \<and> n \<le> 2 ^ k \<and> 2 ^ k < 2 * n \<and> k \<le> 20"
proof -
  define x where "x = n - 1"
  define k where "k = (LEAST k. x < 2 ^ k)"
  have x20: "x < 2 ^ 20" using n by (simp add: x_def)
  then have xk: "x < 2 ^ k" unfolding k_def by (rule LeastI)
  have k20: "k \<le> 20" unfolding k_def using x20 by (rule Least_le)
  have k0: "0 < k"
  proof (rule ccontr)
    assume "\<not> 0 < k"
    then have "k = 0" by simp
    with xk n show False by (simp add: x_def)
  qed
  then have "k - 1 < k" by simp
  then have "\<not> x < 2 ^ (k - 1)" unfolding k_def by (rule not_less_Least)
  then have xl: "2 ^ (k - 1) \<le> x" by simp
  have sm: "(let g = x; g = g OR drop_bit 1 g; g = g OR drop_bit 2 g; g = g OR drop_bit 4 g;
              g = g OR drop_bit 8 g; g = g OR drop_bit 16 g in g) = 2 ^ k - 1"
    using xl xk k0 k20 by (intro smear_mask) auto
  have "(2::int) ^ k \<le> 2 ^ 20" using k20 by (intro power_increasing) auto
  then have p: "(2::int) ^ k \<le> 1048576" by simp
  have i: "isub n 1 = x" using n by (simp add: isub_def wrap_id x_def)
  have "normalize_growSize n = iadd (2 ^ k - 1) 1"
    using n sm by (simp add: normalize_growSize_def i Let_def)
  also have "\<dots> = 2 ^ k"
  proof -
    have "(0::int) \<le> 2 ^ k" by simp
    with p have "wrap (2 ^ k) = 2 ^ k" by (intro wrap_id) linarith+
    then show ?thesis by (simp add: iadd_def)
  qed
  finally have g: "normalize_growSize n = 2 ^ k" .
  have "(2::int) ^ k = 2 * 2 ^ (k - 1)" using k0 by (cases k) simp_all
  with xl have "2 ^ k < 2 * n" by (simp add: x_def)
  moreover have "n \<le> 2 ^ k" using xk by (simp add: x_def)
  ultimately show ?thesis using g k20 by blast
qed

lemma normalize_growSize_range: "16 \<le> normalize_growSize n \<and> normalize_growSize n \<le> 1048576"
proof (cases "15 < n \<and> n \<le> 1048576")
  case True
  then obtain k where k: "normalize_growSize n = 2 ^ k" "n \<le> 2 ^ k" "k \<le> 20"
    using normalize_growSize_pow2 [of n] by blast
  have "(2::int) ^ k \<le> 2 ^ 20" using k(3) by (intro power_increasing) auto
  then show ?thesis using k True by simp
next
  case False
  then show ?thesis by (auto simp add: normalize_growSize_def)
qed

lemma Initialize_eq:
  "Initialize r n = Some (r\<lparr>buf := replicate (nat (normalize_growSize n)) 0, growSize := normalize_growSize n\<rparr>)"
  using normalize_growSize_range [of n] by (simp add: Initialize_def make_bytes_def Let_def)

lemma New_eq:
  "New n = Some \<lparr>buf = replicate (nat (normalize_growSize n)) 0, growSize = normalize_growSize n,
     readPos = 0, written = 0\<rparr>"
  by (simp add: New_def Initialize_eq zero_RingBuffer_def)

lemma New_inv: "New n = Some r \<Longrightarrow> rb_inv r \<and> contents r = []"
  using normalize_growSize_range [of n]
  by (auto simp add: New_eq rb_inv_def bounds_def len_def max_int_def contents_def ring_def)

text \<open>
  Claim C6.  For every integer \<open>n\<close> given to \<^verbatim>\<open>New\<close>, the buffer has a zeroed backing
  array whose length is the growth quantum \<open>g\<close>, and both cursors are 0; \<open>g\<close> is 16 when
  \<open>n \<le> 15\<close>, 1048576 when \<open>n > 1048576\<close>, and otherwise the least power of two that is at
  least \<open>n\<close> (a power of two with \<open>n \<le> g < 2 n\<close>).  In every case \<open>g\<close> is a power of two
  between 16 and 1048576.
\<close>

theorem New_capacity:
  "\<exists>g. New n = Some \<lparr>buf = replicate (nat g) 0, growSize = g, readPos = 0, written = 0\<rparr> \<and>
     (n \<le> 15 \<longrightarrow> g = 16) \<and>
     (1048576 < n \<longrightarrow> g = 1048576) \<and>
     (15 < n \<and> n \<le> 1048576 \<longrightarrow> (\<exists>k. g = 2 ^ k \<and> n \<le> g \<and> g < 2 * n)) \<and>
     (\<exists>k. g = 2 ^ k) \<and> 16 \<le> g \<and> g \<le> 1048576"
proof -
  let ?g = "normalize_growSize n"
  have a: "n \<le> 15 \<longrightarrow> ?g = 16" by (simp add: normalize_growSize_def)
  have b: "1048576 < n \<longrightarrow> ?g = 1048576" by (simp add: normalize_growSize_def)
  have c: "15 < n \<and> n \<le> 1048576 \<longrightarrow> (\<exists>k. ?g = 2 ^ k \<and> n \<le> ?g \<and> ?g < 2 * n)"
    using normalize_growSize_pow2 [of n] by auto
  have "(16::int) = 2 ^ 4" "(1048576::int) = 2 ^ 20" by simp_all
  then have d: "\<exists>k. ?g = 2 ^ k"
    using a b c by (metis not_le)
  show ?thesis
    using a b c d normalize_growSize_range [of n] New_eq [of n] by blast
qed

theorem New_capacity_witness:
  "(7::int) \<le> 15 \<and> (1048576::int) < 2000000 \<and> (15::int) < 1000 \<and> (1000::int) \<le> 1048576 \<and>
   New 7 = Some \<lparr>buf = replicate 16 0, growSize = 16, readPos = 0, written = 0\<rparr> \<and>
   New 2000000 = Some \<lparr>buf = replicate 1048576 0, growSize = 1048576, readPos = 0, written = 0\<rparr> \<and>
   New 1000 = Some \<lparr>buf = replicate 1024 0, growSize = 1024, readPos = 0, written = 0\<rparr>"
proof -
  obtain g where g: "New 7 = Some \<lparr>buf = replicate (nat g) 0, growSize = g, readPos = 0, written = 0\<rparr>"
    and "g = 16"
    using New_capacity [of 7] by auto
  then have a: "New 7 = Some \<lparr>buf = replicate 16 0, growSize = 16, readPos = 0, written = 0\<rparr>"
    by simp
  obtain g where g: "New 2000000 = Some \<lparr>buf = replicate (nat g) 0, growSize = g, readPos = 0, written = 0\<rparr>"
    and "g = 1048576"
    using New_capacity [of 2000000] by auto
  then have b: "New 2000000 = Some \<lparr>buf = replicate 1048576 0, growSize = 1048576, readPos = 0, written = 0\<rparr>"
    by simp
  obtain g k where g: "New 1000 = Some \<lparr>buf = replicate (nat g) 0, growSize = g, readPos = 0, written = 0\<rparr>"
    and k: "g = 2 ^ k" "1000 \<le> g" "g < 2 * 1000"
    using New_capacity [of 1000] by auto
  have "growSize (the (New 1000)) = 1024"
    by (simp add: New_eq normalize_growSize_def isub_def iadd_def wrap_def)
  with g have "g = 1024" by simp
  with g a b show ?thesis by simp
qed

text \<open>
  Claim C10.  \<^verbatim>\<open>Initialize\<close> replaces the backing array by a zeroed one of the
  normalized size and sets the growth quantum; \<open>readPos\<close> and \<open>written\<close> keep their values.
  \<^verbatim>\<open>New\<close> starts from the zero value, so both are 0.  A buffer made by \<^verbatim>\<open>New(16)\<close>
  that holds 50 unread bytes (capacity 64) and is initialized again with 16 has 50 unread
  bytes in a capacity of 16: the bounds of the data model no longer hold.
\<close>

theorem Initialize_keeps_cursor:
  "Initialize r n = Some (r\<lparr>buf := replicate (nat (normalize_growSize n)) 0,
                            growSize := normalize_growSize n\<rparr>) \<and>
   New m = Some \<lparr>buf = replicate (nat (normalize_growSize m)) 0, growSize = normalize_growSize m,
                 readPos = 0, written = 0\<rparr> \<and>
   do {
     r \<leftarrow> New 16;
     (r, k, e) \<leftarrow> Write r (replicate 50 7);
     r' \<leftarrow> Initialize r 16;
     Some (rb_inv r, written r, len (buf r), written r', len (buf r'), readPos r', bounds r')
   } = Some (True, 50, 64, 50, 16, 0, False)"
proof -
  have "do {
     r \<leftarrow> New 16;
     (r, k, e) \<leftarrow> Write r (replicate 50 7);
     r' \<leftarrow> Initialize r 16;
     Some (rb_inv r, written r, len (buf r), written r', len (buf r'), readPos r', bounds r')
   } = Some (True, 50, 64, 50, 16, 0, False)"
    by code_simp
  then show ?thesis
    by (simp only: Initialize_eq New_eq simp_thms)
qed

section \<open>Peek and Read\<close>

lemma peek_nonempty:
  assumes inv: "rb_inv r" and p: "p \<noteq> []" and w: "0 < written r"
  shows "\<exists>p'. peek r p = Some (p', min (len p) (written r), None) \<and> length p' = length p \<and>
      take (nat (min (len p) (written r))) p' = take (nat (min (len p) (written r))) (contents r)"
proof -
  from inv obtain C rp w where r: "buf r \<noteq> []" "length (buf r) = C" "readPos r = int rp" "written r = int w"
    "rp < C" "w \<le> C" "int C \<le> 9223372036854775807" by (rule rb_invD)
  from w r have w0: "0 < w" by simp
  from p have p0: "0 < length p" by simp
  show ?thesis
  proof (cases "rp + w \<le> C")
    case True
    then have c: "contents r = take w (drop rp (buf r))"
      using r by (simp add: contents_def ring_nowrap)
    have ri: "readInfo r = (int rp, int w, 0)"
      using r True by (simp add: readInfo_def len_def isub_def wrap_id)
    show ?thesis
    proof (cases "length p \<le> w")
      case True
      then show ?thesis using r c ri p0 w0 \<open>rp + w \<le> C\<close>
        by (auto simp add: peek_def len_def iadd_def wrap_id slice_def min_def copy_def)
    next
      case False
      then show ?thesis using r c ri p0 w0 \<open>rp + w \<le> C\<close>
        by (auto simp add: peek_def len_def iadd_def wrap_id slice_def min_def copy_at_def copy_def)
    qed
  next
    case False
    define l1 where "l1 = C - rp"
    define l2 where "l2 = rp + w - C"
    have l: "rp + l1 = C" "l1 + l2 = w" "0 < l1" "0 < l2"
      using r False by (simp_all add: l1_def l2_def)
    have c: "contents r = drop rp (buf r) @ take l2 (buf r)"
      using r False by (simp add: contents_def ring_wrap l2_def)
    have "int C - int rp = int l1" "int w - int l1 = int l2"
      using l by linarith+
    then have ri: "readInfo r = (int rp, int l1, int l2)"
      using r False by (simp add: readInfo_def len_def isub_def wrap_id)
    have lb: "length (buf r) = rp + l1" using r l by simp
    show ?thesis
    proof (cases "length p \<le> l1")
      case True
      then show ?thesis using r(3,4,7) lb c ri p0 l
        by (auto simp add: peek_def len_def iadd_def wrap_id slice_def min_def copy_def Let_def)
    next
      case False
      define s1 where "s1 = drop rp (buf r)"
      define s2 where "s2 = take l2 (buf r)"
      define m where "m = min (length p) w"
      have ls: "length s1 = l1" "length s2 = l2"
        using lb l r by (simp_all add: s1_def s2_def)
      have sl1: "slice (buf r) (int rp) (len (buf r)) = Some s1"
        using lb by (simp add: slice_def len_def s1_def)
      have sl2: "slice (buf r) 0 (int l2) = Some s2"
        using lb l r by (simp add: slice_def len_def s2_def)
      have cp1: "copy p s1 = s1 @ drop l1 p"
        using False ls by (simp add: copy_def)
      have cp2: "copy_at (copy p s1) (int l1) (len p) s2 = Some (s1 @ copy (drop l1 p) s2)"
        using False ls by (simp add: cp1 copy_at_def slice_def len_def)
      have n': "(if iadd (int l1) (int l2) < int (length p) then iadd (int l1) (int l2) else int (length p)) = int m"
        using l r by (simp add: iadd_def wrap_id m_def min_def)
      have pk: "peek r p = Some (s1 @ copy (drop l1 p) s2, int m, None)"
        using False p0 l by (simp add: peek_def ri len_def Let_def sl1 [unfolded len_def] sl2 cp2 [unfolded len_def] n')
      have tk: "take m (s1 @ copy (drop l1 p) s2) = take m (s1 @ s2)"
        using False ls l by (auto simp add: m_def min_def copy_def)
      have mm: "min (len p) (written r) = int m"
        using r by (simp add: m_def len_def)
      have lp: "length (s1 @ copy (drop l1 p) s2) = length p"
        using False ls by simp
      have c': "contents r = s1 @ s2"
        by (simp add: c s1_def s2_def)
      show ?thesis
        unfolding mm c' using pk tk lp by simp
    qed
  qed
qed

lemma ring_drop:
  assumes "rp' mod length b = (rp + n) mod length b" "n \<le> w"
  shows "drop n (ring b rp w) = ring b rp' (w - n)"
proof (rule nth_equalityI)
  show "length (drop n (ring b rp w)) = length (ring b rp' (w - n))" by simp
next
  fix i assume "i < length (drop n (ring b rp w))"
  then have i: "i < w - n" by simp
  have "(rp' + i) mod length b = (rp + n + i) mod length b"
    using assms(1) by (rule mod_add_cong) simp
  then show "drop n (ring b rp w) ! i = ring b rp' (w - n) ! i"
    using i assms(2) by (simp add: nth_ring add.assoc)
qed

lemma advanceReadPos_ok:
  assumes inv: "rb_inv r" and n: "0 \<le> n" "n \<le> written r"
  shows "rb_inv (advanceReadPos r n)"
    and "contents (advanceReadPos r n) = drop (nat n) (contents r)"
    and "written (advanceReadPos r n) = written r - n"
    and "buf (advanceReadPos r n) = buf r"
    and "growSize (advanceReadPos r n) = growSize r"
proof -
  from inv obtain C rp w where r: "buf r \<noteq> []" "length (buf r) = C" "readPos r = int rp" "written r = int w"
    "rp < C" "w \<le> C" "int C \<le> 9223372036854775807" "16 \<le> growSize r" "growSize r \<le> 1048576" by (rule rb_invD)
  from n r obtain k where k: "n = int k" "k \<le> w"
    by (metis nat_le_iff nonneg_int_cases of_nat_le_iff nat_int)
  show "buf (advanceReadPos r n) = buf r" "growSize (advanceReadPos r n) = growSize r"
    by (simp_all add: advanceReadPos_def Let_def)
  show w': "written (advanceReadPos r n) = written r - n"
    using r k by (simp add: advanceReadPos_def Let_def isub_def wrap_id)
  show "rb_inv (advanceReadPos r n)"
    using r k by (auto simp add: advanceReadPos_def Let_def isub_def iadd_def wrap_id rb_inv_def bounds_def len_def max_int_def)
  have b': "buf (advanceReadPos r n) = buf r"
    by (simp add: advanceReadPos_def Let_def)
  have wn: "nat (written (advanceReadPos r n)) = w - k"
    using w' r k by simp
  have nk: "nat n = k"
    using k by simp
  show "contents (advanceReadPos r n) = drop (nat n) (contents r)"
  proof (cases "rp + k < C")
    case True
    then have "readPos (advanceReadPos r n) = int (rp + k)"
      using r k by (simp add: advanceReadPos_def Let_def isub_def iadd_def wrap_id len_def)
    then have "nat (readPos (advanceReadPos r n)) = rp + k"
      by (simp only: nat_int)
    then show ?thesis
      using r(3,4) k(2) by (simp add: contents_def b' wn nk ring_drop [of "rp + k" _ rp k])
  next
    case False
    then have "readPos (advanceReadPos r n) = int (rp + k - C)"
      using r k by (simp add: advanceReadPos_def Let_def isub_def iadd_def wrap_id len_def of_nat_diff)
    then have "nat (readPos (advanceReadPos r n)) = rp + k - C"
      by (simp only: nat_int)
    moreover have "(rp + k - C) mod length (buf r) = (rp + k) mod length (buf r)"
      using False r by (simp add: le_mod_geq)
    ultimately show ?thesis
      using r(3,4) k(2) by (simp add: contents_def b' wn nk ring_drop [of "rp + k - C" _ rp k])
  qed
qed

lemma peek_nil: "peek r [] = Some ([], 0, None)"
  by (simp add: peek_def len_def)

lemma peek_no_data:
  assumes "rb_inv r" "written r = 0" "p \<noteq> []"
  shows "peek r p = Some (p, 0, Some EOF)"
  using assms
  by (simp add: rb_inv_def bounds_def max_int_def peek_def readInfo_def len_def isub_def wrap_id)

lemma advanceReadPos_0:
  assumes "rb_inv r"
  shows "advanceReadPos r 0 = r"
  using assms
  by (simp add: rb_inv_def bounds_def max_int_def advanceReadPos_def len_def isub_def iadd_def wrap_id)

lemma peek_total:
  assumes "rb_inv r"
  shows "\<exists>p'. peek r p = Some (p', min (len p) (written r),
            if p \<noteq> [] \<and> written r = 0 then Some EOF else None) \<and>
          length p' = length p \<and>
          take (nat (min (len p) (written r))) p' = take (nat (min (len p) (written r))) (contents r)"
proof -
  have w: "0 \<le> written r" using assms by (simp add: rb_inv_def bounds_def)
  consider "p = []" | "p \<noteq> []" "written r = 0" | "p \<noteq> []" "0 < written r"
    using w by fastforce
  then show ?thesis
  proof cases
    case 1
    then show ?thesis using w by (simp add: peek_nil len_def)
  next
    case 2
    then show ?thesis using assms by (simp add: peek_no_data len_def)
  next
    case 3
    then show ?thesis using peek_nonempty [OF assms 3] by simp
  qed
qed

text \<open>
  Claim C3, as amended.  On a well-formed buffer with no unread byte, \<^verbatim>\<open>Peek\<close> and
  \<^verbatim>\<open>Read\<close> leave the buffer and the destination as they are and return the count 0;
  the error is \<^verbatim>\<open>io.EOF\<close> when the destination is not empty, and nil when it is
  empty.
\<close>

theorem Peek_Read_no_data:
  assumes "rb_inv r" "written r = 0"
  shows "Peek r p = Some (r, p, 0, if p = [] then None else Some EOF) \<and>
         Read r p = Some (r, p, 0, if p = [] then None else Some EOF)"
  using assms
  by (cases "p = []") (simp_all add: Peek_def Read_def peek_nil peek_no_data advanceReadPos_0)

theorem Peek_Read_no_data_witness:
  "rb_inv empty16 \<and> written empty16 = 0 \<and>
   Peek empty16 [1, 2, 3, 4, 5] = Some (empty16, [1, 2, 3, 4, 5], 0, Some EOF) \<and>
   Read empty16 [1, 2, 3, 4, 5] = Some (empty16, [1, 2, 3, 4, 5], 0, Some EOF)"
proof -
  have "rb_inv empty16" "written empty16 = 0"
    by (simp_all add: empty16_def rb_inv_def bounds_def len_def max_int_def)
  then show ?thesis
    using Peek_Read_no_data [of empty16 "[1, 2, 3, 4, 5]"] by simp
qed

text \<open>
  The claim as stated, for any destination, fails for the empty one: \<^verbatim>\<open>peek\<close>
  returns \<open>(0, nil)\<close> for a destination of length 0 before it looks at the buffer.
\<close>

theorem Peek_Read_empty_destination:
  "New 16 = Some empty16 \<and> written empty16 = 0 \<and>
   Peek empty16 [] = Some (empty16, [], 0, None) \<and>
   Read empty16 [] = Some (empty16, [], 0, None)"
  by (simp add: New_eq normalize_growSize_def empty16_def Peek_def Read_def peek_nil
      advanceReadPos_def len_def isub_def iadd_def wrap_def)

text \<open>
  Claim C7.  \<^verbatim>\<open>Peek\<close> returns the buffer it was given, in every state and for every
  destination in which it returns.  On a well-formed buffer, two calls with destinations of
  the same length both return, with the same count and error and the same bytes: the first
  \<open>n\<close> unread bytes, where \<open>n\<close> is the smaller of the destination's length and the number
  of unread bytes.
\<close>

theorem Peek_frame:
  "(Peek r p = None \<or> (\<exists>p' n err. Peek r p = Some (r, p', n, err))) \<and>
   (rb_inv r \<longrightarrow> length p1 = length p2 \<longrightarrow>
      (\<exists>q1 q2 n err. Peek r p1 = Some (r, q1, n, err) \<and> Peek r p2 = Some (r, q2, n, err) \<and>
         n = min (len p1) (written r) \<and>
         take (nat n) q1 = take (nat n) (contents r) \<and>
         take (nat n) q2 = take (nat n) (contents r)))"
proof (intro conjI impI)
  show "Peek r p = None \<or> (\<exists>p' n err. Peek r p = Some (r, p', n, err))"
    by (cases "peek r p") (auto simp add: Peek_def)
next
  assume inv: "rb_inv r" and l: "length p1 = length p2"
  from l have e: "len p1 = len p2" "p1 = [] \<longleftrightarrow> p2 = []" by (auto simp add: len_def)
  from peek_total [OF inv, of p1] peek_total [OF inv, of p2] e
  show "\<exists>q1 q2 n err. Peek r p1 = Some (r, q1, n, err) \<and> Peek r p2 = Some (r, q2, n, err) \<and>
         n = min (len p1) (written r) \<and>
         take (nat n) q1 = take (nat n) (contents r) \<and>
         take (nat n) q2 = take (nat n) (contents r)"
    by (auto simp add: Peek_def)
qed

theorem Peek_frame_witness:
  "rb_inv wrapped16 \<and> length [0, 0, 0 :: byte] = length [5, 6, 7 :: byte] \<and>
   Peek wrapped16 [0, 0, 0] = Some (wrapped16, [11, 12, 21], 3, None) \<and>
   Peek wrapped16 [5, 6, 7] = Some (wrapped16, [11, 12, 21], 3, None) \<and>
   take 3 (contents wrapped16) = [11, 12, 21]"
proof -
  have e: "rb_inv wrapped16 \<and>
      Peek wrapped16 [0, 0, 0] = Some (wrapped16, [11, 12, 21], 3, None) \<and>
      Peek wrapped16 [5, 6, 7] = Some (wrapped16, [11, 12, 21], 3, None)"
    by code_simp
  have w: "min (len [0, 0, 0 :: byte]) (written wrapped16) = 3"
    by (simp add: wrapped16_def len_def)
  from Peek_frame [of wrapped16 "[]" "[0, 0, 0]" "[5, 6, 7]"] e
  have "take 3 [11, 12, 21] = take 3 (contents wrapped16)"
    by (simp add: w)
  with e show ?thesis by simp
qed

section \<open>Capacity growth and Write\<close>

lemma copy_zeros: "length s \<le> N \<Longrightarrow> copy (replicate N z) s = s @ replicate (N - length s) z"
  by (simp add: copy_def)

lemma growBuffer_grow:
  assumes inv: "rb_inv r" and ns: "len (buf r) < newSize" "newSize \<le> max_int"
    and no: "readPos r + written r \<le> max_int"
  shows "growBuffer r newSize =
    Some (r\<lparr>buf := contents r @ replicate (nat newSize - nat (written r)) 0, readPos := 0\<rparr>)"
proof -
  from inv obtain C rp w where r: "buf r \<noteq> []" "length (buf r) = C" "readPos r = int rp" "written r = int w"
    "rp < C" "w \<le> C" "int C \<le> 9223372036854775807" by (rule rb_invD)
  from ns r obtain N where N: "newSize = int N" "C < N" "int N \<le> 9223372036854775807"
    by (metis len_def max_int_def nat_less_iff nonneg_int_cases of_nat_0_le_iff order_less_le order_trans nat_int)
  have mk: "make_bytes (int N) = Some (replicate N 0)"
    by (simp add: make_bytes_def)
  have gt: "newSize > len (buf r)" using ns by simp
  show ?thesis
  proof (cases "rp + w \<le> C")
    case True
    then have c: "contents r = take w (drop rp (buf r))"
      using r by (simp add: contents_def ring_nowrap)
    have sl: "slice (buf r) (int rp) (int rp + int w) = Some (take w (drop rp (buf r)))"
      using r True by (simp add: slice_def len_def)
    have "length (take w (drop rp (buf r))) = w" using r True by simp
    then have cp: "copy (replicate N 0) (take w (drop rp (buf r))) = take w (drop rp (buf r)) @ replicate (N - w) 0"
      using N r copy_zeros [of "take w (drop rp (buf r))" N] by simp
    show ?thesis
      using True r N gt
      by (simp add: growBuffer_def mk iadd_def wrap_id len_def sl cp c)
  next
    case False
    define l1 where "l1 = C - rp"
    define l2 where "l2 = rp + w - C"
    have l: "rp + l1 = C" "l1 + l2 = w" "0 < l1" "0 < l2"
      using r False by (simp_all add: l1_def l2_def)
    have c: "contents r = drop rp (buf r) @ take l2 (buf r)"
      using r False by (simp add: contents_def ring_wrap l2_def)
    define s1 where "s1 = drop rp (buf r)"
    define s2 where "s2 = take l2 (buf r)"
    have ls: "length s1 = l1" "length s2 = l2"
      using l r by (simp_all add: s1_def s2_def)
    have sl1: "slice (buf r) (int rp) (int C) = Some s1"
      using r by (simp add: slice_def len_def s1_def)
    have sl2: "slice (buf r) 0 (int l2) = Some s2"
      using l r by (simp add: slice_def len_def s2_def)
    have cp1: "copy (replicate N 0) s1 = s1 @ replicate (N - l1) 0"
      using copy_zeros [of s1 N] ls l N by simp
    have cp2: "copy_at (s1 @ replicate (N - l1) 0) (int l1) (int N) s2 = Some (s1 @ s2 @ replicate (N - w) 0)"
      using ls l N r by (simp add: copy_at_def slice_def len_def copy_zeros)
    have t: "isub (int C) (int rp) = int l1" "isub (int w) (int l1) = int l2"
      using l r by (simp_all add: isub_def wrap_id)
    have ov: "\<not> iadd (int rp) (int w) \<le> int C"
      using False r no by (simp add: iadd_def wrap_id max_int_def)
    show ?thesis
      using r N gt ov
      by (simp add: growBuffer_def mk len_def t sl1 sl2 cp1 cp2 c s1_def [symmetric] s2_def [symmetric] Let_def)
  qed
qed


lemma go_rem_pos: "0 \<le> a \<Longrightarrow> 0 < b \<Longrightarrow> go_rem a b = Some (a mod b)"
  by (cases "a = 0") (simp_all add: go_rem_def)

lemma ensureCapacity_room:
  assumes "rb_inv r" "n \<le> len (buf r) - written r"
  shows "ensureCapacity r n = Some (r, None)"
  using assms
  by (simp add: ensureCapacity_def rb_inv_def bounds_def max_int_def len_def isub_def wrap_id)

lemma ensureCapacity_grow:
  assumes inv: "rb_inv r" and n: "len (buf r) - written r < n"
    and no: "readPos r + written r \<le> max_int"
      "written r + n + (growSize r - (written r + n) mod growSize r) \<le> max_int"
  shows "ensureCapacity r n =
    Some (r\<lparr>buf := contents r @
                 replicate (nat (written r + n + (growSize r - (written r + n) mod growSize r))
                            - nat (written r)) 0,
            readPos := 0\<rparr>, None)"
proof -
  let ?g = "growSize r"
  let ?req = "written r + n"
  from inv have b: "0 \<le> written r" "written r \<le> len (buf r)" "len (buf r) \<le> 9223372036854775807"
    "16 \<le> ?g" "?g \<le> 1048576"
    by (simp_all add: rb_inv_def bounds_def max_int_def)
  have n0: "0 < n" using n b by simp
  have m: "0 \<le> ?req mod ?g" "?req mod ?g < ?g"
    using b by simp_all
  have req: "?req \<le> 9223372036854775807"
    using no(2) m by (simp add: max_int_def)
  have c1: "n > isub (len (buf r)) (written r)"
    using n b by (simp add: isub_def wrap_id)
  have c2: "iadd (written r) n = ?req"
    using b n0 req by (simp add: iadd_def wrap_id)
  have c3: "go_rem ?req ?g = Some (?req mod ?g)"
    using b n0 by (intro go_rem_pos) simp_all
  have "wrap (?g - ?req mod ?g) = ?g - ?req mod ?g"
    by (rule wrap_id) (use b m in linarith)+
  moreover have no2: "?req + (?g - ?req mod ?g) \<le> 9223372036854775807"
    using no(2) by (simp add: max_int_def)
  then have "wrap (?req + (?g - ?req mod ?g)) = ?req + (?g - ?req mod ?g)"
    by (intro wrap_id) (use b m n0 in linarith)+
  ultimately have c4: "iadd ?req (isub ?g (?req mod ?g)) = ?req + (?g - ?req mod ?g)"
    by (simp add: iadd_def isub_def)
  have "len (buf r) < ?req + (?g - ?req mod ?g)"
    using n m by simp
  from growBuffer_grow [OF inv this no(2) no(1)] c1 c2 c3 c4 b n0
  show ?thesis
    by (simp add: ensureCapacity_def Let_def)
qed

lemma wrap_over:
  assumes "9223372036854775808 \<le> x" "x < 27670116110564327424"
  shows "wrap x = x - 18446744073709551616"
proof -
  have "(x + 9223372036854775808) mod 18446744073709551616 =
      (x - 18446744073709551616 + 9223372036854775808 + 18446744073709551616) mod 18446744073709551616"
    by (simp add: add.commute)
  also have "\<dots> = (x - 18446744073709551616 + 9223372036854775808) mod 18446744073709551616"
    by (rule mod_add_self2)
  also have "\<dots> = x - 18446744073709551616 + 9223372036854775808"
    using assms by (intro mod_pos_pos_trivial) simp_all
  finally show ?thesis by (simp add: wrap_def)
qed

lemma ensureCapacity_overflow:
  assumes inv: "rb_inv r" and n: "0 < n" "n \<le> max_int" and ov: "max_int < written r + n"
  shows "ensureCapacity r n = Some (r, Some BufferOverflow)"
proof -
  from inv have b: "0 \<le> written r" "written r \<le> len (buf r)" "len (buf r) \<le> 9223372036854775807"
    by (simp_all add: rb_inv_def bounds_def max_int_def)
  have "wrap (written r + n) = written r + n - 18446744073709551616"
    by (rule wrap_over) (use b n ov in \<open>simp_all add: max_int_def\<close>)
  then have "iadd (written r) n < n"
    using b n by (simp add: iadd_def max_int_def)
  moreover have "n > isub (len (buf r)) (written r)"
    using b n ov by (simp add: isub_def wrap_id max_int_def)
  ultimately show ?thesis
    by (simp add: ensureCapacity_def Let_def)
qed


lemma ring_write_nowrap:
  assumes "rp + w + n \<le> length b" "length p = n"
  shows "ring (take (rp + w) b @ p @ drop (rp + w + n) b) rp (w + n) = ring b rp w @ p"
proof -
  have "length (take (rp + w) b @ p @ drop (rp + w + n) b) = length b"
    using assms by simp
  then have "ring (take (rp + w) b @ p @ drop (rp + w + n) b) rp (w + n) =
      take (w + n) (drop rp (take (rp + w) b @ p @ drop (rp + w + n) b))"
    using assms by (intro ring_nowrap) simp
  also have "\<dots> = take w (drop rp b) @ p"
    using assms by (simp add: drop_take)
  also have "take w (drop rp b) = ring b rp w"
    using assms by (simp add: ring_nowrap)
  finally show ?thesis .
qed

lemma ring_write_wrapped:
  assumes "rp < length b" "w \<le> length b" "length b \<le> rp + w" "w + n \<le> length b" "length p = n" "0 < n"
  shows "ring (take (rp + w - length b) b @ p @ drop (rp + w - length b + n) b) rp (w + n) = ring b rp w @ p"
proof -
  define C where "C = length b"
  define o' where "o' = rp + w - C"
  have o: "o' + C = rp + w" "o' + n \<le> rp" using assms by (simp_all add: o'_def C_def)
  let ?b' = "take o' b @ p @ drop (o' + n) b"
  have l: "length ?b' = C" using assms o by (simp add: C_def)
  have "ring ?b' rp (w + n) = drop rp ?b' @ take (rp + (w + n) - length ?b') ?b'"
    using assms o l by (intro ring_wrap) (simp_all add: C_def)
  also have "rp + (w + n) - length ?b' = o' + n" using l o by simp
  also have "take (o' + n) ?b' = take o' b @ p" using assms o by (simp add: C_def)
  also have "drop rp ?b' = drop rp b" using assms o by (simp add: C_def)
  finally have 1: "ring ?b' rp (w + n) = drop rp b @ take o' b @ p" by simp
  have 2: "ring b rp w = drop rp b @ take o' b"
  proof (cases "o' = 0")
    case True
    then have "rp + w = C" using o by simp
    then show ?thesis using True assms by (simp add: ring_nowrap C_def)
  next
    case False
    then show ?thesis using assms o by (simp add: ring_wrap C_def o'_def)
  qed
  show ?thesis using 1 2 by (simp add: o'_def C_def)
qed

lemma ring_write_split:
  assumes "rp + w < length b" "length b - (rp + w) < n" "w + n \<le> length b" "length p = n"
  shows "ring (drop (length b - (rp + w)) p @ drop (n - (length b - (rp + w))) (take rp b) @
               drop rp (take (rp + w) b) @ take (length b - (rp + w)) p) rp (w + n) = ring b rp w @ p"
proof -
  define C where "C = length b"
  define l1 where "l1 = C - (rp + w)"
  have c: "rp + w + l1 = C" "l1 < n" "n - l1 \<le> rp" using assms by (simp_all add: l1_def C_def)
  let ?b' = "drop l1 p @ drop (n - l1) (take rp b) @ drop rp (take (rp + w) b) @ take l1 p"
  have l: "length ?b' = C" using assms c by (simp add: C_def)
  have "ring ?b' rp (w + n) = drop rp ?b' @ take (rp + (w + n) - length ?b') ?b'"
    using assms c l by (intro ring_wrap) (simp_all add: C_def)
  also have "rp + (w + n) - length ?b' = n - l1" unfolding l using c by arith
  also have "take (n - l1) ?b' = drop l1 p" using assms c by simp
  also have "drop rp ?b' = drop rp (take (rp + w) b) @ take l1 p" using assms c by (simp add: C_def)
  finally have 1: "ring ?b' rp (w + n) = drop rp (take (rp + w) b) @ take l1 p @ drop l1 p" by simp
  have 2: "ring b rp w = drop rp (take (rp + w) b)"
    using assms by (simp add: ring_nowrap drop_take)
  show ?thesis using 1 2 by (simp add: l1_def C_def)
qed

lemma copy_exact: "length d = length s \<Longrightarrow> copy d s = s"
  by (simp add: copy_def)

lemma Write_room:
  assumes inv: "rb_inv r" and p: "p \<noteq> []" "len p \<le> len (buf r) - written r"
  shows "\<exists>b. Write r p = Some (r\<lparr>buf := b, written := written r + len p\<rparr>, len p, None) \<and>
           length b = length (buf r) \<and>
           ring b (nat (readPos r)) (nat (written r) + length p) = contents r @ p"
proof -
  from inv obtain C rp w where r: "buf r \<noteq> []" "length (buf r) = C" "readPos r = int rp" "written r = int w"
    "rp < C" "w \<le> C" "int C \<le> 9223372036854775807" by (rule rb_invD)
  define n where "n = length p"
  have n: "0 < n" "w + n \<le> C" "len p = int n"
    using p r by (simp_all add: n_def len_def)
  have ec: "ensureCapacity r (int n) = Some (r, None)"
    using ensureCapacity_room [OF inv p(2)] n by simp
  have aw: "advanceWritePos (r\<lparr>buf := b\<rparr>) (int n) = r\<lparr>buf := b, written := written r + int n\<rparr>" for b
    using r n by (simp add: advanceWritePos_def iadd_def wrap_id)
  have W: "Write r p = (case writeInfo r of (ofs1, len1, len2) \<Rightarrow>
                do {
                  b \<leftarrow>
                    (if int n \<le> len1 then copy_at (buf r) ofs1 (iadd ofs1 (int n)) p
                     else
                       do {
                         p1 \<leftarrow> slice p 0 len1;
                         b1 \<leftarrow> copy_at (buf r) ofs1 (len (buf r)) p1;
                         p2 \<leftarrow> slice p len1 (len p);
                         copy_at b1 0 len2 p2
                       });
                  Some (r\<lparr>buf := b, written := written r + int n\<rparr>, int n, None)
                })"
    using n by (simp add: Write_def Let_def ec aw)
  have fin: ?thesis
    if "Write r p = Some (r\<lparr>buf := B, written := written r + int n\<rparr>, int n, None)"
      "length B = C" "ring B rp (w + n) = ring (buf r) rp w @ p" for B
    using that r n by (intro exI [of _ B]) (simp add: contents_def n_def)
  show ?thesis
  proof (cases "rp + w < C")
    case True
    define e where "e = rp + w"
    define l1 where "l1 = C - e"
    have e: "e + l1 = C" "0 < l1" using True by (simp_all add: e_def l1_def)
    have wi: "writeInfo r = (int e, int l1, int rp)"
      using r True e by (auto simp add: writeInfo_def len_def isub_def iadd_def wrap_id Let_def e_def l1_def)
    show ?thesis
    proof (cases "n \<le> l1")
      case True
      let ?B = "take e (buf r) @ p @ drop (e + n) (buf r)"
      have "copy_at (buf r) (int e) (int e + int n) p = Some ?B"
        using r e True by (simp add: copy_at_def slice_def len_def copy_exact n_def nat_add_distrib)
      then have "Write r p = Some (r\<lparr>buf := ?B, written := written r + int n\<rparr>, int n, None)"
        using r e True n by (simp add: W wi iadd_def wrap_id)
      moreover have "ring ?B rp (w + n) = ring (buf r) rp w @ p"
        unfolding e_def using r e True by (intro ring_write_nowrap) (simp_all add: n_def e_def)
      moreover have "length ?B = C"
        using r e True by (simp add: n_def)
      ultimately show ?thesis by (intro fin)
    next
      case False
      define p1 where "p1 = take l1 p"
      define p2 where "p2 = drop l1 p"
      let ?b1 = "take e (buf r) @ p1"
      let ?B = "p2 @ drop (n - l1) (take rp (buf r)) @ drop rp (take e (buf r)) @ p1"
      have lp: "length p1 = l1" "length p2 = n - l1" "n - l1 \<le> rp"
        using False n e by (simp_all add: p1_def p2_def n_def e_def)
      have s1: "slice p 0 (int l1) = Some p1"
        using False by (simp add: slice_def len_def p1_def n_def)
      have s2: "slice p (int l1) (int n) = Some p2"
        using False by (simp add: slice_def len_def p2_def n_def)
      have c1: "copy_at (buf r) (int e) (int C) p1 = Some ?b1"
        using r e lp by (simp add: copy_at_def slice_def len_def copy_exact)
      have "take rp ?b1 = take rp (buf r)" "drop rp ?b1 = drop rp (take e (buf r)) @ p1"
        using r e by (simp_all add: e_def)
      then have c2: "copy_at ?b1 0 (int rp) p2 = Some ?B"
        using r e lp by (simp add: copy_at_def slice_def len_def copy_def)
      have "Write r p = Some (r\<lparr>buf := ?B, written := written r + int n\<rparr>, int n, None)"
        using r e False n by (simp add: W wi len_def s1 s2 c1 c2)
      moreover have "ring ?B rp (w + n) = ring (buf r) rp w @ p"
      proof -
        have l1': "length (buf r) - (rp + w) = l1"
          by (simp add: l1_def e_def r(2))
        have "ring (drop l1 p @ drop (n - l1) (take rp (buf r)) @
                    drop rp (take (rp + w) (buf r)) @ take l1 p) rp (w + n) = ring (buf r) rp w @ p"
        proof (rule ring_write_split [of rp w "buf r" n p, unfolded l1'])
          show "rp + w < length (buf r)" using True r(2) by simp
          show "l1 < n" using False by simp
          show "w + n \<le> length (buf r)" using n r(2) by simp
          show "length p = n" by (simp add: n_def)
        qed
        then show ?thesis by (simp only: p1_def p2_def e_def)
      qed
      moreover have "length ?B = C"
        using r e False lp by (simp add: e_def)
      ultimately show ?thesis by (intro fin)
    qed
  next
    case False
    define o' where "o' = rp + w - C"
    have o: "o' + C = rp + w" "o' + n \<le> rp" "w < C" using False n by (simp_all add: o'_def)
    let ?B = "take o' (buf r) @ p @ drop (o' + n) (buf r)"
    have wi: "writeInfo r = (int o', int (C - w), 0)"
      using r False o by (auto simp add: writeInfo_def len_def isub_def iadd_def wrap_id Let_def o'_def)
    have "copy_at (buf r) (int o') (int o' + int n) p = Some ?B"
      using r o by (simp add: copy_at_def slice_def len_def copy_exact n_def nat_add_distrib)
    then have "Write r p = Some (r\<lparr>buf := ?B, written := written r + int n\<rparr>, int n, None)"
      using r o n by (simp add: W wi iadd_def wrap_id)
    moreover have "ring ?B rp (w + n) = ring (buf r) rp w @ p"
    proof -
      have o'': "rp + w - length (buf r) = o'"
        by (simp add: o'_def r(2))
      show ?thesis
      proof (rule ring_write_wrapped [of rp "buf r" w n p, unfolded o''])
        show "rp < length (buf r)" "w \<le> length (buf r)" using r by simp_all
        show "length (buf r) \<le> rp + w" using False r(2) by simp
        show "w + n \<le> length (buf r)" using n r(2) by simp
        show "length p = n" by (simp add: n_def)
        show "0 < n" using n by simp
      qed
    qed
    moreover have "length ?B = C"
      using r o by (simp add: n_def)
    ultimately show ?thesis by (intro fin)
  qed
qed

lemma Write_via:
  assumes "ensureCapacity r (len p) = Some (r1, None)" "ensureCapacity r1 (len p) = Some (r1, None)"
    and "p \<noteq> []"
  shows "Write r p = Write r1 p"
  using assms by (simp add: Write_def Let_def len_def)

lemma grown_inv:
  assumes inv: "rb_inv r" and N: "len (buf r) < N" "N \<le> max_int"
  defines "r1 \<equiv> r\<lparr>buf := contents r @ replicate (nat N - nat (written r)) 0, readPos := 0\<rparr>"
  shows "rb_inv r1" "contents r1 = contents r" "len (buf r1) = N" "written r1 = written r"
    "growSize r1 = growSize r"
proof -
  from inv obtain C rp w where r: "buf r \<noteq> []" "length (buf r) = C" "readPos r = int rp" "written r = int w"
    "rp < C" "w \<le> C" "int C \<le> 9223372036854775807" "16 \<le> growSize r" "growSize r \<le> 1048576"
    by (rule rb_invD)
  from N r obtain M where M: "N = int M" "C < M"
    by (metis len_def nat_less_iff nonneg_int_cases of_nat_0_le_iff order_less_le order_trans nat_int)
  have b: "buf r1 = contents r @ replicate (M - w) 0" "length (contents r) = w"
    using r M by (simp_all add: r1_def contents_def)
  show "len (buf r1) = N" using b M r by (simp add: len_def)
  show "written r1 = written r" "growSize r1 = growSize r" by (simp_all add: r1_def)
  show "rb_inv r1"
    using b M r N by (simp add: rb_inv_def bounds_def len_def r1_def)
  have "contents r1 = ring (contents r @ replicate (M - w) 0) 0 w"
    using r b by (simp add: contents_def r1_def)
  also have "\<dots> = take w (drop 0 (contents r @ replicate (M - w) 0))"
    using b by (intro ring_nowrap) simp
  finally show "contents r1 = contents r" using b by simp
qed

lemma Write_ok:
  assumes inv: "rb_inv r" and p: "p \<noteq> []"
    and no: "len p \<le> len (buf r) - written r \<or>
             readPos r + written r \<le> max_int \<and>
             written r + len p + (growSize r - (written r + len p) mod growSize r) \<le> max_int"
  shows "\<exists>r'. Write r p = Some (r', len p, None) \<and> rb_inv r' \<and>
           contents r' = contents r @ p \<and> written r' = written r + len p \<and>
           growSize r' = growSize r \<and>
           len (buf r') = (if len p \<le> len (buf r) - written r then len (buf r)
                           else written r + len p + (growSize r - (written r + len p) mod growSize r))"
proof -
  have room: "\<exists>r'. Write r1 p = Some (r', len p, None) \<and> rb_inv r' \<and>
           contents r' = contents r1 @ p \<and> written r' = written r1 + len p \<and>
           growSize r' = growSize r1 \<and> len (buf r') = len (buf r1)"
    if i: "rb_inv r1" and l: "len p \<le> len (buf r1) - written r1" for r1
  proof -
    from Write_room [OF i p l] obtain b where b:
      "Write r1 p = Some (r1\<lparr>buf := b, written := written r1 + len p\<rparr>, len p, None)"
      "length b = length (buf r1)"
      "ring b (nat (readPos r1)) (nat (written r1) + length p) = contents r1 @ p"
      by blast
    let ?r' = "r1\<lparr>buf := b, written := written r1 + len p\<rparr>"
    have w: "0 \<le> written r1" using i by (simp add: rb_inv_def bounds_def)
    then have "nat (written r1 + len p) = nat (written r1) + length p"
      by (simp add: len_def nat_add_distrib)
    then have "contents ?r' = contents r1 @ p"
      using b by (simp add: contents_def)
    moreover have "rb_inv ?r'"
      using i l b w by (simp add: rb_inv_def bounds_def len_def)
    ultimately show ?thesis
      using b by (intro exI [of _ ?r']) (simp add: len_def)
  qed
  show ?thesis
  proof (cases "len p \<le> len (buf r) - written r")
    case True
    with room [OF inv True] show ?thesis by simp
  next
    case False
    let ?N = "written r + len p + (growSize r - (written r + len p) mod growSize r)"
    let ?r1 = "r\<lparr>buf := contents r @ replicate (nat ?N - nat (written r)) 0, readPos := 0\<rparr>"
    from False no have n: "readPos r + written r \<le> max_int" "?N \<le> max_int" by simp_all
    from False have lt: "len (buf r) - written r < len p" by simp
    have ec: "ensureCapacity r (len p) = Some (?r1, None)"
      by (rule ensureCapacity_grow [OF inv lt n])
    have g: "16 \<le> growSize r" using inv by (simp add: rb_inv_def)
    then have m: "(written r + len p) mod growSize r < growSize r" by simp
    then have big: "len (buf r) < ?N" using lt by linarith
    note G = grown_inv [OF inv big n(2)]
    have rm: "len p \<le> len (buf ?r1) - written ?r1"
      unfolding G(3) G(4) using m by linarith
    have W: "Write r p = Write ?r1 p"
      by (rule Write_via [OF ec ensureCapacity_room [OF G(1) rm] p])
    from room [OF G(1) rm] obtain r' where r': "Write ?r1 p = Some (r', len p, None)" "rb_inv r'"
      "contents r' = contents ?r1 @ p" "written r' = written ?r1 + len p"
      "growSize r' = growSize ?r1" "len (buf r') = len (buf ?r1)"
      by blast
    have "Write r p = Some (r', len p, None)" using W r'(1) by simp
    moreover have "contents r' = contents r @ p" using r'(3) by (simp only: G(2))
    moreover have "written r' = written r + len p" using r'(4) by (simp only: G(4))
    moreover have "growSize r' = growSize r" using r'(5) by (simp only: G(5))
    moreover have "len (buf r') = ?N" using r'(6) by (simp only: G(3))
    ultimately show ?thesis
      using False r'(2) by (intro exI [of _ r']) simp
  qed
qed

section \<open>The searches\<close>

text \<open>
  Claim C9.  With the unread bytes \<open>aab\<close> (97, 97, 98) and the target \<open>ab\<close>, the target
  occurs at logical index 1, and \<^verbatim>\<open>FindBytes\<close> returns -1: the second \<open>a\<close> fails
  against the target's \<open>b\<close>, resets the offset, and is not compared with the target's first
  byte again.  No proper prefix of \<open>ab\<close> is a suffix of a failed partial match here, so the
  occurrence is missed without any overlap.
\<close>

theorem FindBytes_aab_ab_not_found:
  "do {
     r \<leftarrow> New 16;
     (r, n, e) \<leftarrow> Write r [97, 97, 98];
     (r, i) \<leftarrow> FindBytes r [97, 98];
     Some (contents r, take 2 (drop 1 (contents r)), i)
   } = Some ([97, 97, 98], [97, 98], - 1)"
  by code_simp

end
